theory Spec2Isabelle
  imports Complex_Main "HOL-Library.AList"
begin

section \<open>The data model: an insertion-ordered map\<close>

text \<open>
  \<^verbatim>\<open>class Collection<K, V> extends Map<K, V>\<close>. A JavaScript \<^verbatim>\<open>Map\<close> keeps its
  entries in insertion order and holds every key once, so a collection is the list of
  its entries, in iteration order. The invariant of the type is that the keys are
  pairwise distinct; \<open>map_set\<close> keeps it.

  A JavaScript value that may be \<^verbatim>\<open>undefined\<close> is an \<open>option\<close>: \<open>None\<close> is
  \<^verbatim>\<open>undefined\<close>.
\<close>

type_synonym ('k, 'v) collection = "('k \<times> 'v) list"

definition size_c :: "('k, 'v) collection \<Rightarrow> nat" where
  "size_c c = length c"

definition entries :: "('k, 'v) collection \<Rightarrow> ('k \<times> 'v) list" where
  "entries c = c"

definition keys :: "('k, 'v) collection \<Rightarrow> 'k list" where
  "keys c = map fst c"

definition values_c :: "('k, 'v) collection \<Rightarrow> 'v list" where
  "values_c c = map snd c"

definition has :: "('k, 'v) collection \<Rightarrow> 'k \<Rightarrow> bool" where
  "has c k = (k \<in> set (map fst c))"

definition get :: "('k, 'v) collection \<Rightarrow> 'k \<Rightarrow> 'v option" where
  "get c k = map_of c k"

text \<open>
  \<^verbatim>\<open>Map.prototype.set\<close>: the value of a key that is present is replaced where it
  stands, a new key is appended.
\<close>

definition map_set :: "'k \<Rightarrow> 'v \<Rightarrow> ('k, 'v) collection \<Rightarrow> ('k, 'v) collection" where
  "map_set k v c = AList.update k v c"

text \<open>\<^verbatim>\<open>new Collection(iterable)\<close>: every entry of the iterable is set in turn.\<close>

definition Collection_new :: "('k \<times> 'v) list \<Rightarrow> ('k, 'v) collection" where
  "Collection_new es = foldl (\<lambda>m (k, v). map_set k v m) [] es"

text \<open>The errors of the source are \<^verbatim>\<open>new Error(message)\<close>.\<close>

datatype error = Error string

definition EmptyCollectionError :: error where
  "EmptyCollectionError =
     Error ''Collection#random: Cannot get random elements from the empty collection''"

definition MissingCapabilityError :: error where
  "MissingCapabilityError =
     Error ''Collection#equal: cannot perform deep equal without lodash installed''"

text \<open>
  Several methods return either one value or an array of values
  (\<^verbatim>\<open>V | V[]\<close>); the elements are JavaScript values, so they may be \<^verbatim>\<open>undefined\<close>.
\<close>

datatype 'a ret = One "'a option" | Many "'a option list"

fun count :: "'a ret \<Rightarrow> nat" where
  "count (One v) = 1"
| "count (Many vs) = length vs"

fun returned :: "'a ret \<Rightarrow> 'a option list" where
  "returned (One v) = [v]"
| "returned (Many vs) = vs"

subsection \<open>Arrays\<close>

text \<open>\<^verbatim>\<open>xs[i]\<close>: reading outside the array gives \<^verbatim>\<open>undefined\<close>.\<close>

definition js_index :: "'a list \<Rightarrow> int \<Rightarrow> 'a option" where
  "js_index xs i = (if 0 \<le> i \<and> i < int (length xs) then Some (xs ! nat i) else None)"

text \<open>
  \<^verbatim>\<open>Array.prototype.indexOf\<close>: the first position of the element, or \<open>-1\<close>.
\<close>

fun indexOf :: "'a list \<Rightarrow> 'a \<Rightarrow> int" where
  "indexOf [] x = - 1"
| "indexOf (y # ys) x =
     (if y = x then 0 else (let r = indexOf ys x in if r = - 1 then - 1 else r + 1))"

text \<open>
  \<^verbatim>\<open>Array.prototype.slice(start, end)\<close> on integers: a negative bound counts from the
  end, both bounds are clamped to the array, an absent \<^verbatim>\<open>end\<close> is the length.
\<close>

definition slice :: "'a list \<Rightarrow> int \<Rightarrow> int option \<Rightarrow> 'a list" where
  "slice xs start end' =
     (let len = int (length xs);
          k = (if start < 0 then max (len + start) 0 else min start len);
          relativeEnd = (case end' of None \<Rightarrow> len | Some e \<Rightarrow> e);
          final = (if relativeEnd < 0 then max (len + relativeEnd) 0 else min relativeEnd len)
      in take (nat (final - k)) (drop (nat k) xs))"

section \<open>Sampler: \<open>random\<close>\<close>

text \<open>
  \<^verbatim>\<open>Math.random()\<close> is a global generator. Its state is the sequence \<open>g\<close> of the
  numbers it will return and the position \<open>k\<close> of the next one; a function that draws
  returns the new position. The generator promises \<open>0 \<le> g i < 1\<close>.
  The numbers are rationals (every double is one); the product with \<open>max\<close> is taken
  exactly.
\<close>

type_synonym rng = "nat \<Rightarrow> rat"

definition valid_rng :: "rng \<Rightarrow> bool" where
  "valid_rng g = (\<forall>i. 0 \<le> g i \<and> g i < 1)"

text \<open>\<^verbatim>\<open>Math.floor(Math.random() * max)\<close>, for the draw at position \<open>k\<close>.\<close>

definition random_below :: "rng \<Rightarrow> nat \<Rightarrow> nat \<Rightarrow> nat" where
  "random_below g k max' = nat \<lfloor>g k * of_nat max'\<rfloor>"

text \<open>
  Modelled from the spec: \<^verbatim>\<open>range\<close> of \<^verbatim>\<open>@src/utils/range\<close> is not among the
  sources. The spec has \<^verbatim>\<open>range(size + 1)\<close> build "an index sequence [0..size]", so
  \<open>range n\<close> is \<open>0, 1, ..., n - 1\<close>.
\<close>

definition range :: "nat \<Rightarrow> nat list" where
  "range n = [0..<n]"

text \<open>
  Modelled from the spec: \<^verbatim>\<open>swap\<close> of \<^verbatim>\<open>@src/utils/swap\<close> is not among the
  sources. The spec has it "swap [the picked index] with the element at position max":
  the two positions exchange their elements and the array is returned.
\<close>

definition swap :: "'a list \<Rightarrow> nat \<Rightarrow> nat \<Rightarrow> 'a list" where
  "swap array a b = array[a := array ! b, b := array ! a]"

record CollectionRandomOptions =
  unique :: "bool option"

text \<open>
  The first loop of the partial shuffle:
  \<^verbatim>\<open>for (let i = 0; i < size; i++) { num = floor(random() * max); swap; max -= 1 }\<close>.
\<close>

function shuffle_loop :: "rng \<Rightarrow> nat \<Rightarrow> nat \<Rightarrow> nat \<Rightarrow> nat \<Rightarrow> nat list \<Rightarrow> nat list \<times> nat" where
  "shuffle_loop g size' i k max' randomNumbers =
     (if i < size' then
        (let num = random_below g k max'
         in shuffle_loop g size' (i + 1) (Suc k) (max' - 1) (swap randomNumbers num max'))
      else (randomNumbers, k))"
  by pat_completeness auto
termination
  by (relation "measure (\<lambda>(g, size', i, k, max', randomNumbers). size' - i)") auto

declare shuffle_loop.simps [simp del]

text \<open>
  The loops of the rejection sampling. With \<^verbatim>\<open>unique\<close>, a number that is already in
  \<^verbatim>\<open>random\<close> repeats the iteration (\<^verbatim>\<open>i -= 1\<close>, then the loop's \<^verbatim>\<open>i++\<close>); nothing
  bounds the number of repetitions, so the loop may not return.
\<close>

partial_function (option) unique_loop ::
  "rng \<Rightarrow> nat \<Rightarrow> int \<Rightarrow> int \<Rightarrow> nat \<Rightarrow> nat list \<Rightarrow> (nat list \<times> nat) option" where
  "unique_loop g size' amount i k random =
     (if i < amount then
        (if indexOf random (random_below g k size') > - 1
         then unique_loop g size' amount ((i - 1) + 1) (Suc k) random
         else unique_loop g size' amount (i + 1) (Suc k) (random @ [random_below g k size']))
      else Some (random, k))"

declare unique_loop.simps [code]

function plain_loop :: "rng \<Rightarrow> nat \<Rightarrow> int \<Rightarrow> int \<Rightarrow> nat \<Rightarrow> nat list \<Rightarrow> nat list \<times> nat" where
  "plain_loop g size' amount i k random =
     (if i < amount then
        plain_loop g size' amount (i + 1) (Suc k) (random @ [random_below g k size'])
      else (random, k))"
  by pat_completeness auto
termination
  by (relation "measure (\<lambda>(g, size', amount, i, k, random). nat (amount - i))") auto

declare plain_loop.simps [simp del]

text \<open>The normalisation of \<^verbatim>\<open>amount\<close> (absent is \<open>None\<close>; \<open>0\<close> is falsy).\<close>

definition normalize_amount :: "nat \<Rightarrow> int option \<Rightarrow> int" where
  "normalize_amount size' amount =
     (let amount1 = (case amount of
                       None \<Rightarrow> None
                     | Some a \<Rightarrow> if a \<noteq> 0 \<and> a > int size' then Some (int size') else Some a)
      in case amount1 of
           None \<Rightarrow> 1
         | Some a \<Rightarrow> if a = 0 \<or> (a \<noteq> 0 \<and> a < 1) then 1 else a)"

text \<open>
  \<^verbatim>\<open>Math.floor(amount / size * 100) > (size > 500 ? size > 1000 ? 15 : 50 : 80)\<close>.
  The quotient is taken exactly. In double arithmetic the floor can be one less
  (\<open>29 / 100 * 100\<close>), but only when the exact value is a whole number that the rounded
  product falls short of, and \<open>81\<close>, \<open>51\<close> and \<open>16\<close> are not among those: the comparison
  has the same outcome.
\<close>

definition largeAmount :: "int \<Rightarrow> nat \<Rightarrow> bool" where
  "largeAmount amount size' =
     (\<lfloor>(of_int amount / of_nat size') * (100 :: rat)\<rfloor>
        > (if size' > 500 then if size' > 1000 then 15 else 50 else 80))"

text \<open>
  Algorithm A: the index positions \<^verbatim>\<open>randomNumbers[0], ..., randomNumbers[amount - 1]\<close>
  after the shuffle.
\<close>

definition algorithm_A :: "rng \<Rightarrow> nat \<Rightarrow> nat \<Rightarrow> int \<Rightarrow> nat list \<times> nat" where
  "algorithm_A g k size' amount =
     (let (randomNumbers, k') = shuffle_loop g size' 0 k size' (range (size' + 1))
      in (map (\<lambda>i. randomNumbers ! i) [0..<nat amount], k'))"

text \<open>Algorithm B: the array \<^verbatim>\<open>random\<close> of index positions.\<close>

definition algorithm_B :: "rng \<Rightarrow> nat \<Rightarrow> nat \<Rightarrow> int \<Rightarrow> bool \<Rightarrow> (nat list \<times> nat) option" where
  "algorithm_B g k size' amount uniq =
     (if uniq then unique_loop g size' amount 0 k []
      else Some (plain_loop g size' amount 0 k []))"

text \<open>
  The index positions behind the result of \<^verbatim>\<open>random\<close>, after the check for the
  empty collection.
\<close>

definition random_slots ::
  "('k, 'v) collection \<Rightarrow> int option \<Rightarrow> CollectionRandomOptions \<Rightarrow> rng \<Rightarrow> nat
     \<Rightarrow> (nat list \<times> nat) option" where
  "random_slots c amount options g k =
     (let size' = size_c c;
          amount = normalize_amount size' amount;
          uniq = (unique options = Some True)
      in if largeAmount amount size' \<and> uniq
         then Some (algorithm_A g k size' amount)
         else algorithm_B g k size' amount uniq)"

text \<open>
  \<^verbatim>\<open>random(amount?, options = {})\<close>. The result is \<open>None\<close> when the call does not
  return, otherwise the error thrown or the value returned, with the position of the
  generator after the call.
\<close>

definition random ::
  "('k, 'v) collection \<Rightarrow> int option \<Rightarrow> CollectionRandomOptions \<Rightarrow> rng \<Rightarrow> nat
     \<Rightarrow> ((error + 'v ret) \<times> nat) option" where
  "random c amount options g k =
     (let size' = size_c c
      in if size' < 1 then Some (Inl EmptyCollectionError, k)
         else
           (let amount' = normalize_amount size' amount;
                arr = values_c c
            in case random_slots c amount options g k of
                 None \<Rightarrow> None
               | Some (slots, k') \<Rightarrow>
                   (let results = map (\<lambda>r. js_index arr (int r)) slots
                    in Some (Inr (if amount' \<le> 1
                                  then One (case results of [] \<Rightarrow> None | r # _ \<Rightarrow> r)
                                  else Many results), k'))))"


text \<open>
  The rejection loop returns when the generator keeps producing every index: after any
  position, each slot below \<open>size\<close> is drawn again.
\<close>

definition recurrent :: "rng \<Rightarrow> nat \<Rightarrow> bool" where
  "recurrent g size' = (\<forall>k j. j < size' \<longrightarrow> (\<exists>k'\<ge>k. random_below g k' size' = j))"

text \<open>
  The selection rule in the words of the specification: the density
  \<open>floor(amount / size * 100)\<close> and the threshold table (80 up to size 500, 50 above
  500 and up to 1000, 15 above 1000).
\<close>

definition density :: "int \<Rightarrow> nat \<Rightarrow> int" where
  "density amount size' = \<lfloor>(of_int amount / of_nat size') * (100 :: rat)\<rfloor>"

definition threshold :: "nat \<Rightarrow> int" where
  "threshold size' =
     (if size' \<le> 500 then 80 else if 500 < size' \<and> size' \<le> 1000 then 50 else 15)"

section \<open>Filter\<close>

record CollectionFilterOptions =
  return :: "string option"

text \<open>The three shapes of the result: an array of pairs, a plain map, a collection.\<close>

datatype ('k, 'v) filtered =
  Array "('k \<times> 'v) list"
| PlainMap "('k, 'v) collection"
| Coll "('k, 'v) collection"

fun listing :: "('k, 'v) filtered \<Rightarrow> ('k \<times> 'v) list" where
  "listing (Array es) = es"
| "listing (PlainMap m) = entries m"
| "listing (Coll m) = entries m"

definition pairs :: "('k, 'v) filtered \<Rightarrow> ('k \<times> 'v) set" where
  "pairs r = set (listing r)"

text \<open>
  \<^verbatim>\<open>filter(filter, options = {})\<close>. The predicate is called with the value, the key
  and the collection; the loop runs over the entries in order and the predicate built
  in the \<^verbatim>\<open>switch\<close> adds the entry to the result when the filter holds.
\<close>

definition filter_c ::
  "('v \<Rightarrow> 'k \<Rightarrow> ('k, 'v) collection \<Rightarrow> bool) \<Rightarrow> CollectionFilterOptions
     \<Rightarrow> ('k, 'v) collection \<Rightarrow> ('k, 'v) filtered" where
  "filter_c filter' options this =
     (if return options = Some ''map'' then
        PlainMap (foldl (\<lambda>results (key, value).
                    if filter' value key this then map_set key value results else results)
                  [] (entries this))
      else if return options = Some ''collection'' then
        Coll (foldl (\<lambda>results (key, value).
                if filter' value key this then map_set key value results else results)
              (Collection_new []) (entries this))
      else
        Array (foldl (\<lambda>results (key, value).
                 if filter' value key this then results @ [(key, value)] else results)
               [] (entries this)))"

section \<open>Objects and references: \<open>equal\<close> and \<open>concat\<close>\<close>

text \<open>
  \<open>equal\<close> compares two collections as objects (\<^verbatim>\<open>this === collection\<close>) and
  \<open>concat\<close> writes into a collection it has created. The collections live in a heap:
  a reference is a position in the list of all collections allocated so far, a new
  collection is appended. An argument that is \<^verbatim>\<open>null\<close>, \<^verbatim>\<open>undefined\<close> or not a
  collection is \<open>None\<close>.
\<close>

type_synonym ref = nat

type_synonym ('k, 'v) heap = "('k, 'v) collection list"

record CollectionEqualOptions =
  deep :: "bool option"

type_synonym 'v equalFn = "'v option \<Rightarrow> 'v option \<Rightarrow> bool"

text \<open>
  The loop of \<open>equal\<close>: the first entry of this collection whose key the other one
  lacks, or whose values do not compare equal, returns \<^verbatim>\<open>false\<close>.
\<close>

fun equal_loop :: "'v equalFn \<Rightarrow> ('k, 'v) collection \<Rightarrow> ('k \<times> 'v) list \<Rightarrow> bool" where
  "equal_loop eq collection [] = True"
| "equal_loop eq collection ((key, value) # rest) =
     (if \<not> has collection key \<or> \<not> eq (get collection key) (Some value) then False
      else equal_loop eq collection rest)"

text \<open>
  \<^verbatim>\<open>equal(collection, options = {})\<close>. \<open>lodashIsEqual\<close> is the module's variable:
  \<open>None\<close> when \<^verbatim>\<open>require('lodash/isEqual')\<close> failed. For an absent argument
  \<^verbatim>\<open>collection?.size\<close> is \<^verbatim>\<open>undefined\<close>, which no size is identical to.
\<close>

definition equal ::
  "('k, 'v) heap \<Rightarrow> 'v equalFn option \<Rightarrow> ref \<Rightarrow> ref option \<Rightarrow> CollectionEqualOptions
     \<Rightarrow> error + bool" where
  "equal h lodashIsEqual this collection options =
     (if Some (size_c (h ! this)) \<noteq> map_option (\<lambda>r. size_c (h ! r)) collection then Inr False
      else if Some this = collection then Inr True
      else
        (case (if deep options = Some True then
                 (case lodashIsEqual of
                    None \<Rightarrow> Inl MissingCapabilityError
                  | Some f \<Rightarrow> Inr (\<lambda>arg1 arg2. f arg1 arg2))
               else Inr (\<lambda>arg1 arg2. arg1 = arg2)) of
           Inl e \<Rightarrow> Inl e
         | Inr eq \<Rightarrow>
             (case collection of
                None \<Rightarrow> Inr False
              | Some r \<Rightarrow> Inr (equal_loop eq (h ! r) (entries (h ! this))))))"

text \<open>\<^verbatim>\<open>clone()\<close>: a new collection built from the entries of this one.\<close>

definition clone :: "('k, 'v) heap \<Rightarrow> ref \<Rightarrow> ('k, 'v) heap \<times> ref" where
  "clone h this = (h @ [Collection_new (entries (h ! this))], length h)"

text \<open>
  \<^verbatim>\<open>concat(collections)\<close>: every entry of every collection of the array is set in
  the clone; an element that is not a collection is skipped.
\<close>

fun concat_loop :: "('k, 'v) heap \<Rightarrow> ref \<Rightarrow> ref option list \<Rightarrow> ('k, 'v) heap" where
  "concat_loop h merged [] = h"
| "concat_loop h merged (collection # rest) =
     (case collection of
        None \<Rightarrow> concat_loop h merged rest
      | Some r \<Rightarrow>
          concat_loop
            (fold (\<lambda>(key, value) h'. h'[merged := map_set key value (h' ! merged)])
               (entries (h ! r)) h)
            merged rest)"

definition concat_c :: "('k, 'v) heap \<Rightarrow> ref \<Rightarrow> ref option list \<Rightarrow> ('k, 'v) heap \<times> ref" where
  "concat_c h this collections =
     (let (h1, merged) = clone h this
      in (concat_loop h1 merged collections, merged))"

section \<open>Positional access\<close>

text \<open>
  \<^verbatim>\<open>first(amount?)\<close>, \<^verbatim>\<open>firstKey(amount?)\<close>, \<^verbatim>\<open>last(amount?)\<close> and
  \<^verbatim>\<open>lastKey(amount?)\<close>, on integer amounts. \<^verbatim>\<open>!amount\<close> holds for an absent amount
  and for \<open>0\<close>.
\<close>

definition first :: "('k, 'v) collection \<Rightarrow> int option \<Rightarrow> 'v ret" where
  "first this amount =
     (case amount of
        None \<Rightarrow> One (js_index (values_c this) 0)
      | Some a \<Rightarrow>
          if a = 0 \<or> a \<le> 1 then One (js_index (values_c this) 0)
          else
            (let vals = values_c this;
                 amount' = min (int (length vals)) a
             in Many (map Some (slice vals 0 (Some amount')))))"

definition firstKey :: "('k, 'v) collection \<Rightarrow> int option \<Rightarrow> 'k ret" where
  "firstKey this amount =
     (case amount of
        None \<Rightarrow> One (js_index (keys this) 0)
      | Some a \<Rightarrow>
          if a = 0 \<or> a \<le> 1 then One (js_index (keys this) 0)
          else
            (let ks = keys this;
                 amount' = min (int (length ks)) a
             in Many (map Some (slice ks 0 (Some amount')))))"

definition last_c :: "('k, 'v) collection \<Rightarrow> int option \<Rightarrow> 'v ret" where
  "last_c this amount =
     (let vals = values_c this
      in case amount of
           None \<Rightarrow> One (js_index vals (int (length vals) - 1))
         | Some a \<Rightarrow>
             if a = 0 \<or> a \<le> 1 then One (js_index vals (int (length vals) - 1))
             else
               (let amount' = min (int (length vals)) a
                in Many (map Some (slice vals (- amount') None))))"

definition lastKey :: "('k, 'v) collection \<Rightarrow> int option \<Rightarrow> 'k ret" where
  "lastKey this amount =
     (let ks = keys this
      in case amount of
           None \<Rightarrow> One (js_index ks (int (length ks) - 1))
         | Some a \<Rightarrow>
             if a = 0 \<or> a \<le> 1 then One (js_index ks (int (length ks) - 1))
             else
               (let amount' = min (int (length ks)) a
                in Many (map Some (slice ks (- amount') None))))"

section \<open>Properties of the sampler\<close>

lemma random_below_le: "valid_rng g \<Longrightarrow> random_below g k m \<le> m"
proof -
  assume v: "valid_rng g"
  then have a: "0 \<le> g k" and b: "g k < 1" by (auto simp: valid_rng_def)
  have "g k * of_nat m \<le> 1 * of_nat m" using b by (intro mult_right_mono) auto
  then have "\<lfloor>g k * of_nat m\<rfloor> \<le> int m" by (simp add: floor_le_iff) 
  then show ?thesis by (simp add: random_below_def)
qed

lemma random_below_less: "valid_rng g \<Longrightarrow> 0 < m \<Longrightarrow> random_below g k m < m"
proof -
  assume v: "valid_rng g" and m: "0 < m"
  then have a: "0 \<le> g k" and b: "g k < 1" by (auto simp: valid_rng_def)
  have "g k * of_nat m < 1 * of_nat m" using b m by (intro mult_strict_right_mono) auto
  then have "\<lfloor>g k * of_nat m\<rfloor> < int m" by (simp add: floor_less_iff)
  moreover have "0 \<le> \<lfloor>g k * of_nat m\<rfloor>" using a by simp
  ultimately show ?thesis unfolding random_below_def by linarith
qed

lemma indexOf_iff: "indexOf xs x > - 1 \<longleftrightarrow> x \<in> set xs"
proof -
  have "indexOf xs x \<ge> - 1 \<and> (indexOf xs x = - 1 \<longleftrightarrow> x \<notin> set xs)"
    by (induction xs) (auto simp: Let_def)
  then show ?thesis by auto
qed

lemma normalize_amount_bounds:
  "0 < size' \<Longrightarrow> 1 \<le> normalize_amount size' amount \<and> normalize_amount size' amount \<le> int size'"
  by (auto simp: normalize_amount_def split: option.splits)

lemma normalize_amount_pos: "0 < size' \<Longrightarrow> 0 < n \<Longrightarrow> normalize_amount size' (Some n) = min n (int size')"
  by (auto simp: normalize_amount_def)

lemma normalize_amount_None: "normalize_amount size' None = 1"
  by (auto simp: normalize_amount_def)

lemma plain_loop_length:
  "i \<le> amount \<Longrightarrow> length (fst (plain_loop g size' amount i k rs)) = length rs + nat (amount - i)"
proof (induction g size' amount i k rs rule: plain_loop.induct)
  case (1 g size' amount i k rs)
  show ?case
  proof (cases "i < amount")
    case True
    then show ?thesis using 1 by (subst plain_loop.simps) (simp add: nat_diff_distrib)
  next
    case False
    then show ?thesis using 1 by (subst plain_loop.simps) simp
  qed
qed

lemma plain_loop_pos:
  "snd (plain_loop g size' amount i k rs) = k + nat (amount - i)"
proof (induction g size' amount i k rs rule: plain_loop.induct)
  case (1 g size' amount i k rs)
  show ?case
  proof (cases "i < amount")
    case True
    then show ?thesis using 1 by (subst plain_loop.simps) (simp add: nat_diff_distrib)
  next
    case False
    then show ?thesis using 1 by (subst plain_loop.simps) simp
  qed
qed

lemma plain_loop_set:
  "valid_rng g \<Longrightarrow> 0 < size' \<Longrightarrow> set rs \<subseteq> {..<size'} \<Longrightarrow> set (fst (plain_loop g size' amount i k rs)) \<subseteq> {..<size'}"
proof (induction g size' amount i k rs rule: plain_loop.induct)
  case (1 g size' amount i k rs)
  show ?case
  proof (cases "i < amount")
    case True
    then show ?thesis using 1 by (subst plain_loop.simps) (simp add: random_below_less)
  next
    case False
    then show ?thesis using 1 by (subst plain_loop.simps) simp
  qed
qed

lemma swap_length: "length (swap xs a b) = length xs"
  by (simp add: swap_def)

lemma swap_distinct: "a < length xs \<Longrightarrow> b < length xs \<Longrightarrow> distinct (swap xs a b) = distinct xs"
  by (simp add: swap_def)

lemma swap_set: "a < length xs \<Longrightarrow> b < length xs \<Longrightarrow> set (swap xs a b) = set xs"
  by (simp add: swap_def)

lemma shuffle_loop_inv:
  "valid_rng g \<Longrightarrow> m < length xs \<Longrightarrow>
     length (fst (shuffle_loop g size' i k m xs)) = length xs \<and>
     distinct (fst (shuffle_loop g size' i k m xs)) = distinct xs \<and>
     set (fst (shuffle_loop g size' i k m xs)) = set xs"
proof (induction g size' i k m xs rule: shuffle_loop.induct)
  case (1 g size' i k m xs)
  show ?case
  proof (cases "i < size'")
    case True
    have n: "random_below g k m < length xs" using random_below_le[OF 1(2), of k m] 1(3) by simp
    have "m - 1 < length (swap xs (random_below g k m) m)" using 1(3) by (simp add: swap_length)
    from 1(1)[OF True refl 1(2) this] show ?thesis using True n 1(3)
      by (subst (1 2 3) shuffle_loop.simps) (simp add: swap_length swap_distinct swap_set)
  next
    case False
    then show ?thesis by (subst (1 2 3) shuffle_loop.simps) simp
  qed
qed

lemma shuffle_loop_pos: "snd (shuffle_loop g size' i k m xs) = k + (size' - i)"
proof (induction g size' i k m xs rule: shuffle_loop.induct)
  case (1 g size' i k m xs)
  show ?case
  proof (cases "i < size'")
    case True
    from 1[OF True refl] show ?thesis using True
      by (subst shuffle_loop.simps) simp
  next
    case False
    then show ?thesis by (subst shuffle_loop.simps) simp
  qed
qed

lemma unique_loop_distinct:
  assumes "unique_loop g size' amount i k rs = Some y" and "distinct rs"
  shows "distinct (fst y)"
proof -
  have "distinct rs \<longrightarrow> distinct (fst y)"
    by (rule unique_loop.raw_induct
          [where P = "\<lambda>g size' amount i k rs y. distinct rs \<longrightarrow> distinct (fst y)", OF _ assms(1)])
       (auto simp: indexOf_iff split: if_splits)
  with assms(2) show ?thesis by simp
qed

lemma unique_loop_length:
  assumes "unique_loop g size' amount i k rs = Some y" and "i \<le> amount"
  shows "length (fst y) = length rs + nat (amount - i)"
proof -
  have "i \<le> amount \<longrightarrow> length (fst y) = length rs + nat (amount - i)"
    by (rule unique_loop.raw_induct
          [where P = "\<lambda>g size' amount i k rs y. i \<le> amount \<longrightarrow> length (fst y) = length rs + nat (amount - i)",
           OF _ assms(1)])
       (auto simp: indexOf_iff nat_diff_distrib split: if_splits)
  with assms(2) show ?thesis by simp
qed

lemma unique_loop_set:
  assumes "unique_loop g size' amount i k rs = Some y" and "valid_rng g" "0 < size'" "set rs \<subseteq> {..<size'}"
  shows "set (fst y) \<subseteq> {..<size'}"
proof -
  have "valid_rng g \<and> 0 < size' \<and> set rs \<subseteq> {..<size'} \<longrightarrow> set (fst y) \<subseteq> {..<size'}"
    by (rule unique_loop.raw_induct
          [where P = "\<lambda>g size' amount i k rs y. valid_rng g \<and> 0 < size' \<and> set rs \<subseteq> {..<size'} \<longrightarrow> set (fst y) \<subseteq> {..<size'}",
           OF _ assms(1)])
       (auto simp: indexOf_iff random_below_less split: if_splits)
  with assms show ?thesis by simp
qed


lemma unique_loop_skip:
  "i < amount \<Longrightarrow> (\<forall>e<d. random_below g (k + e) size' \<in> set rs) \<Longrightarrow>
     unique_loop g size' amount i k rs = unique_loop g size' amount i (k + d) rs"
proof (induction d arbitrary: k)
  case 0
  then show ?case by simp
next
  case (Suc d)
  have here: "random_below g k size' \<in> set rs" using Suc.prems(2)[rule_format, of 0] by simp
  have rest: "\<forall>e<d. random_below g (Suc k + e) size' \<in> set rs"
    using Suc.prems(2) by (metis Suc_less_eq add_Suc_shift)
  have "unique_loop g size' amount i k rs = unique_loop g size' amount i (Suc k) rs"
    using Suc.prems(1) here by (subst unique_loop.simps) (simp add: indexOf_iff)
  also have "\<dots> = unique_loop g size' amount i (Suc k + d) rs"
    by (rule Suc.IH[OF Suc.prems(1) rest])
  finally show ?case by simp
qed

lemma fresh_slot:
  assumes "distinct rs" "length rs < size'"
  shows "\<exists>j<size'. j \<notin> set rs"
proof (rule ccontr)
  assume "\<not> (\<exists>j<size'. j \<notin> set rs)"
  then have "{..<size'} \<subseteq> set rs" by auto
  then have "card {..<size'} \<le> card (set rs)" by (intro card_mono) auto
  also have "\<dots> = length rs" using assms(1) by (simp add: distinct_card)
  finally show False using assms(2) by simp
qed

lemma unique_loop_returns:
  assumes "recurrent g size'"
  shows "distinct rs \<Longrightarrow> length rs = nat i \<Longrightarrow> 0 \<le> i \<Longrightarrow> amount \<le> int size' \<Longrightarrow>
           \<exists>y. unique_loop g size' amount i k rs = Some y"
proof (induction "nat (amount - i)" arbitrary: i k rs)
  case 0
  then have "\<not> i < amount" by simp
  then show ?case by (subst unique_loop.simps) simp
next
  case (Suc n)
  then have lt: "i < amount" by linarith
  then have "length rs < size'" using Suc.prems by linarith
  from fresh_slot[OF Suc.prems(1) this] obtain j where j: "j < size'" "j \<notin> set rs" by blast
  from assms j(1) obtain k' where k': "k' \<ge> k" "random_below g k' size' = j"
    unfolding recurrent_def by blast
  define Q where "Q d \<longleftrightarrow> random_below g (k + d) size' \<notin> set rs" for d
  have "Q (k' - k)" using k' j(2) by (simp add: Q_def)
  define d where "d = (LEAST d. Q d)"
  have Qd: "Q d" unfolding d_def using \<open>Q (k' - k)\<close> by (rule LeastI)
  have before: "\<forall>e<d. random_below g (k + e) size' \<in> set rs"
    using not_less_Least[of _ Q] unfolding d_def Q_def by blast
  let ?num = "random_below g (k + d) size'"
  have fresh: "?num \<notin> set rs" using Qd by (simp add: Q_def)
  have "unique_loop g size' amount i k rs = unique_loop g size' amount i (k + d) rs"
    by (rule unique_loop_skip[OF lt before])
  also have "\<dots> = unique_loop g size' amount (i + 1) (Suc (k + d)) (rs @ [?num])"
    using lt fresh by (subst unique_loop.simps) (simp add: indexOf_iff)
  finally have step: "unique_loop g size' amount i k rs =
      unique_loop g size' amount (i + 1) (Suc (k + d)) (rs @ [?num])" .
  have "\<exists>y. unique_loop g size' amount (i + 1) (Suc (k + d)) (rs @ [?num]) = Some y"
  proof (rule Suc.hyps(1))
    show "n = nat (amount - (i + 1))" using Suc.hyps(2) by linarith
    show "distinct (rs @ [?num])" using Suc.prems(1) fresh by simp
    show "length (rs @ [?num]) = nat (i + 1)" using Suc.prems(2,3) by simp
    show "0 \<le> i + 1" using Suc.prems(3) by simp
    show "amount \<le> int size'" by (rule Suc.prems(4))
  qed
  with step show ?case by simp
qed

lemma random_slots_length:
  assumes "c \<noteq> []" and "random_slots c amount options g k = Some (slots, k')"
  shows "length slots = nat (normalize_amount (size_c c) amount)"
proof -
  have pos: "0 < size_c c" using assms(1) by (simp add: size_c_def)
  note b = normalize_amount_bounds[OF pos, of amount]
  let ?a = "normalize_amount (size_c c) amount"
  show ?thesis
  proof (cases "largeAmount ?a (size_c c) \<and> unique options = Some True")
    case True
    then have "slots = fst (algorithm_A g k (size_c c) ?a)"
      using assms(2) by (auto simp: random_slots_def Let_def)
    then show ?thesis by (simp add: algorithm_A_def split: prod.splits)
  next
    case False
    then have B: "algorithm_B g k (size_c c) ?a (unique options = Some True) = Some (slots, k')"
      using assms(2) by (auto simp: random_slots_def Let_def)
    show ?thesis
    proof (cases "unique options = Some True")
      case True
      then have "unique_loop g (size_c c) ?a 0 k [] = Some (slots, k')"
        using B by (simp add: algorithm_B_def)
      from unique_loop_length[OF this] b show ?thesis by simp
    next
      case False
      then have "plain_loop g (size_c c) ?a 0 k [] = (slots, k')"
        using B by (simp add: algorithm_B_def)
      then have "slots = fst (plain_loop g (size_c c) ?a 0 k [])" by simp
      then show ?thesis using plain_loop_length[of 0 ?a g "size_c c" k "[]"] b by simp
    qed
  qed
qed

lemma random_nonempty:
  "c \<noteq> [] \<Longrightarrow> random c amount options g k =
     (case random_slots c amount options g k of
        None \<Rightarrow> None
      | Some (slots, k') \<Rightarrow>
          Some (Inr (if normalize_amount (size_c c) amount \<le> 1
                     then One (case map (\<lambda>r. js_index (values_c c) (int r)) slots of
                                 [] \<Rightarrow> None | r # _ \<Rightarrow> r)
                     else Many (map (\<lambda>r. js_index (values_c c) (int r)) slots)), k'))"
  by (auto simp: random_def size_c_def Let_def split: option.splits)

lemma random_count_aux:
  assumes "c \<noteq> []" and "random c amount options g k = Some (Inr r, k')"
  shows "count r = nat (normalize_amount (size_c c) amount)"
proof -
  have pos: "0 < size_c c" using assms(1) by (simp add: size_c_def)
  note b = normalize_amount_bounds[OF pos, of amount]
  from assms(2) obtain slots where s: "random_slots c amount options g k = Some (slots, k')"
    and r: "r = (if normalize_amount (size_c c) amount \<le> 1
                 then One (case map (\<lambda>r. js_index (values_c c) (int r)) slots of
                             [] \<Rightarrow> None | r # _ \<Rightarrow> r)
                 else Many (map (\<lambda>r. js_index (values_c c) (int r)) slots))"
    by (auto simp: random_nonempty[OF assms(1)] split: option.splits)
  from random_slots_length[OF assms(1) s] r b show ?thesis by auto
qed

lemma random_plain_returns:
  assumes "c \<noteq> []" and "unique options \<noteq> Some True"
  shows "\<exists>r k'. random c amount options g k = Some (Inr r, k')"
  using assms by (simp add: random_nonempty random_slots_def algorithm_B_def Let_def split: prod.splits)

lemma random_plain_members:
  assumes "c \<noteq> []" "valid_rng g" "unique options \<noteq> Some True"
    and "random c amount options g k = Some (Inr r, k')"
  shows "set (returned r) \<subseteq> Some ` set (values_c c)"
proof -
  have pos: "0 < size_c c" using assms(1) by (simp add: size_c_def)
  let ?a = "normalize_amount (size_c c) amount"
  let ?slots = "fst (plain_loop g (size_c c) ?a 0 k [])"
  let ?results = "map (\<lambda>r. js_index (values_c c) (int r)) ?slots"
  have slots: "random_slots c amount options g k = Some (plain_loop g (size_c c) ?a 0 k [])"
    using assms(3) by (simp add: random_slots_def algorithm_B_def Let_def)
  have r: "r = (if ?a \<le> 1 then One (case ?results of [] \<Rightarrow> None | r # _ \<Rightarrow> r)
                else Many ?results)"
    using assms(4) by (auto simp: random_nonempty[OF assms(1)] slots split: prod.splits if_splits)
  have "set ?slots \<subseteq> {..<size_c c}"
    by (rule plain_loop_set[OF assms(2) pos]) simp
  then have res: "set ?results \<subseteq> Some ` set (values_c c)"
    by (auto simp: js_index_def size_c_def values_c_def)
  have "length ?results = nat ?a"
    using plain_loop_length[of 0 ?a g "size_c c" k "[]"] normalize_amount_bounds[OF pos, of amount]
    by simp
  then have "?results \<noteq> []" using normalize_amount_bounds[OF pos, of amount] by auto
  then have "(case ?results of [] \<Rightarrow> None | r # _ \<Rightarrow> r) \<in> set ?results"
    by (cases ?results) auto
  with res r show ?thesis by (auto split: if_splits)
qed

text \<open>
  C1. On a non-empty collection and for a positive integer \<open>n\<close>, \<open>random(n)\<close> (no
  options, or \<open>unique\<close> not set) returns, and returns exactly \<open>min(n, size)\<close> values;
  \<open>random()\<close> returns, and returns a single value. With a generator that keeps its
  promise the values returned are values of the collection. Whatever the options, a
  call \<open>random(n, options)\<close> that returns yields \<open>min(n, size)\<close> elements.
\<close>

theorem random_returns_min_values:
  assumes "c \<noteq> []" and "0 < n"
  shows "(unique options \<noteq> Some True \<longrightarrow>
            (\<exists>r k'. random c (Some n) options g k = Some (Inr r, k')
                \<and> count r = min (nat n) (size_c c)
                \<and> (valid_rng g \<longrightarrow> set (returned r) \<subseteq> Some ` set (values_c c))))
       \<and> (unique options \<noteq> Some True \<longrightarrow>
            (\<exists>v k'. random c None options g k = Some (Inr (One v), k')
                \<and> (valid_rng g \<longrightarrow> v \<in> Some ` set (values_c c))))
       \<and> (\<forall>r k'. random c (Some n) options g k = Some (Inr r, k')
              \<longrightarrow> count r = min (nat n) (size_c c))"
proof -
  have pos: "0 < size_c c" using assms(1) by (simp add: size_c_def)
  have norm: "nat (normalize_amount (size_c c) (Some n)) = min (nat n) (size_c c)"
    using normalize_amount_pos[OF pos assms(2)] assms(2) by linarith
  have third: "\<forall>r k'. random c (Some n) options g k = Some (Inr r, k')
              \<longrightarrow> count r = min (nat n) (size_c c)"
    using random_count_aux[OF assms(1)] norm by metis
  have first: "\<exists>r k'. random c (Some n) options g k = Some (Inr r, k')
                \<and> count r = min (nat n) (size_c c)
                \<and> (valid_rng g \<longrightarrow> set (returned r) \<subseteq> Some ` set (values_c c))"
    if u: "unique options \<noteq> Some True"
  proof -
    from random_plain_returns[OF assms(1) u] obtain r k'
      where r: "random c (Some n) options g k = Some (Inr r, k')" by blast
    with third have "count r = min (nat n) (size_c c)" by blast
    moreover have "valid_rng g \<longrightarrow> set (returned r) \<subseteq> Some ` set (values_c c)"
      using random_plain_members[OF assms(1) _ u r] by blast
    ultimately show ?thesis using r by blast
  qed
  have second: "\<exists>v k'. random c None options g k = Some (Inr (One v), k')
                \<and> (valid_rng g \<longrightarrow> v \<in> Some ` set (values_c c))"
    if u: "unique options \<noteq> Some True"
  proof -
    from random_plain_returns[OF assms(1) u] obtain r k'
      where r: "random c None options g k = Some (Inr r, k')" by blast
    then obtain v where v: "r = One v"
      by (auto simp: random_nonempty[OF assms(1)] normalize_amount_None split: option.splits)
    have "valid_rng g \<longrightarrow> v \<in> Some ` set (values_c c)"
      using random_plain_members[OF assms(1) _ u r] v by auto
    with r v show ?thesis by blast
  qed
  from first second third show ?thesis by blast
qed

theorem random_returns_min_values_witness:
  "(\<exists>r k'. random [(1::nat, ''a''), (2, ''b''), (3, ''c'')] (Some 5) \<lparr>unique = None\<rparr> (\<lambda>_. 0) 0
              = Some (Inr r, k') \<and> count r = 3)
   \<and> (\<exists>v k'. random [(1::nat, ''a''), (2, ''b''), (3, ''c'')] None \<lparr>unique = None\<rparr> (\<lambda>_. 0) 0
              = Some (Inr (One v), k'))"
proof -
  have nonempty: "[(1::nat, ''a''), (2, ''b''), (3, ''c'')] \<noteq> []" by simp
  have positive: "(0::int) < 5" by simp
  have size: "min (nat 5) (size_c [(1::nat, ''a''), (2, ''b''), (3, ''c'')]) = 3"
    by (simp add: size_c_def)
  have default: "unique \<lparr>unique = None\<rparr> \<noteq> Some True" by simp
  from random_returns_min_values [OF nonempty positive, of "\<lparr>unique = None\<rparr>" "\<lambda>_. 0" 0]
  show ?thesis unfolding size using default by blast
qed

lemma algorithm_A_distinct:
  assumes "valid_rng g" and "0 \<le> amount" and "amount \<le> int size'"
  shows "distinct (fst (algorithm_A g k size' amount))"
proof -
  let ?xs = "fst (shuffle_loop g size' 0 k size' (range (size' + 1)))"
  have inv: "length ?xs = size' + 1 \<and> distinct ?xs"
    using shuffle_loop_inv[OF assms(1), of size' "range (size' + 1)" size' 0 k]
    by (simp add: range_def)
  have "map (\<lambda>i. ?xs ! i) [0..<nat amount] = take (nat amount) ?xs"
    using inv assms(2,3) by (intro nth_equalityI) auto
  moreover have "distinct (take (nat amount) ?xs)" using inv by simp
  moreover have "fst (algorithm_A g k size' amount) = map (\<lambda>i. ?xs ! i) [0..<nat amount]"
    by (simp add: algorithm_A_def case_prod_beta)
  ultimately show ?thesis by simp
qed

text \<open>
  C2. On a non-empty collection, with \<open>unique: true\<close> and a generator that keeps its
  promise, the index positions behind the result of \<open>random(n, {unique: true})\<close> are
  pairwise distinct, for every amount (so for every \<open>n \<le> size\<close>): when the partial
  shuffle is selected they are the first entries of the shuffled sequence, when the
  rejection sampling is selected they are what its loop returns.
\<close>

theorem random_unique_slots_distinct:
  assumes "c \<noteq> []" and "valid_rng g" and "unique options = Some True"
    and "random_slots c amount options g k = Some (slots, k')"
  shows "distinct slots
       \<and> (largeAmount (normalize_amount (size_c c) amount) (size_c c) \<longrightarrow>
            algorithm_A g k (size_c c) (normalize_amount (size_c c) amount) = (slots, k'))
       \<and> (\<not> largeAmount (normalize_amount (size_c c) amount) (size_c c) \<longrightarrow>
            algorithm_B g k (size_c c) (normalize_amount (size_c c) amount) True = Some (slots, k'))"
proof -
  have pos: "0 < size_c c" using assms(1) by (simp add: size_c_def)
  note b = normalize_amount_bounds[OF pos, of amount]
  let ?a = "normalize_amount (size_c c) amount"
  show ?thesis
  proof (cases "largeAmount ?a (size_c c)")
    case True
    then have A: "algorithm_A g k (size_c c) ?a = (slots, k')"
      using assms(3,4) by (simp add: random_slots_def Let_def)
    have "distinct (fst (algorithm_A g k (size_c c) ?a))"
      using b by (intro algorithm_A_distinct[OF assms(2)]) auto
    with A True show ?thesis by simp
  next
    case False
    then have B: "algorithm_B g k (size_c c) ?a True = Some (slots, k')"
      using assms(3,4) by (simp add: random_slots_def Let_def)
    then have "unique_loop g (size_c c) ?a 0 k [] = Some (slots, k')"
      by (simp add: algorithm_B_def)
    from unique_loop_distinct[OF this] B False show ?thesis by simp
  qed
qed

theorem random_unique_slots_distinct_witness:
  "random_slots [(1::nat, ''a''), (2, ''b''), (3, ''c'')] (Some 3) \<lparr>unique = Some True\<rparr>
      (\<lambda>n. if n = 0 then 0 else 1 / 2) 0 = Some ([2, 3, 1], 3)
   \<and> largeAmount (normalize_amount 3 (Some 3)) 3 \<and> distinct [2, 3, 1 :: nat]
   \<and> random_slots [(1::nat, ''a''), (2, ''b''), (3, ''c'')] (Some 2) \<lparr>unique = Some True\<rparr>
      (\<lambda>n. if n = 0 then 0 else 1 / 2) 0 = Some ([0, 1], 2)
   \<and> \<not> largeAmount (normalize_amount 3 (Some 2)) 3 \<and> distinct [0, 1 :: nat]"
proof -
  let ?c = "[(1::nat, ''a''), (2, ''b''), (3, ''c'')]"
  let ?g = "\<lambda>n::nat. if n = 0 then 0 else 1 / 2 :: rat"
  have nonempty: "?c \<noteq> []" by simp
  have valid: "valid_rng ?g" by (simp add: valid_rng_def)
  have uniq: "unique \<lparr>unique = Some True\<rparr> = Some True" by simp
  have A: "random_slots ?c (Some 3) \<lparr>unique = Some True\<rparr> ?g 0 = Some ([2, 3, 1], 3)"
    by code_simp
  have B: "random_slots ?c (Some 2) \<lparr>unique = Some True\<rparr> ?g 0 = Some ([0, 1], 2)"
    by code_simp
  have lA: "largeAmount (normalize_amount 3 (Some 3)) 3" by code_simp
  have lB: "\<not> largeAmount (normalize_amount 3 (Some 2)) 3" by code_simp
  from random_unique_slots_distinct [OF nonempty valid uniq A]
       random_unique_slots_distinct [OF nonempty valid uniq B] A B lA lB
  show ?thesis by simp
qed

text \<open>
  Where the values of \<open>random\<close> come from. The rejection sampling draws every index
  below \<open>size\<close>, so what it returns are values of the collection. The partial shuffle
  starts from the index sequence \<open>0, ..., size\<close>; its first step moves the index
  \<open>size\<close> below position \<open>size\<close>, the later steps leave it there, and when the
  whole collection is asked for it is among the chosen positions: the snapshot has no
  element there.
\<close>

lemma shuffle_loop_above:
  "valid_rng g \<Longrightarrow> m < n \<Longrightarrow> fst (shuffle_loop g size' i k m xs) ! n = xs ! n"
proof (induction g size' i k m xs rule: shuffle_loop.induct)
  case (1 g size' i k m xs)
  show ?case
  proof (cases "i < size'")
    case True
    have num: "random_below g k m \<noteq> n" using random_below_le[OF 1(2), of k m] 1(3) by simp
    have "m - 1 < n" using 1(3) by simp
    from 1(1)[OF True refl 1(2) this] num 1(3) True show ?thesis
      by (subst shuffle_loop.simps) (simp add: swap_def Let_def)
  next
    case False
    then show ?thesis by (subst shuffle_loop.simps) simp
  qed
qed

lemma algorithm_A_full_has_size:
  assumes "valid_rng g" and "0 < size'"
  shows "size' \<in> set (fst (algorithm_A g k size' (int size')))"
proof -
  let ?xs0 = "range (size' + 1)"
  let ?num = "random_below g k size'"
  let ?xs1 = "swap ?xs0 ?num size'"
  let ?final = "fst (shuffle_loop g size' 0 k size' ?xs0)"
  have num: "?num < size'" by (rule random_below_less[OF assms])
  have step: "shuffle_loop g size' 0 k size' ?xs0
                = shuffle_loop g size' 1 (Suc k) (size' - 1) ?xs1"
    using assms(2) by (subst shuffle_loop.simps) simp
  have "?final ! size' = ?xs1 ! size'"
    unfolding step using assms(2) by (intro shuffle_loop_above[OF assms(1)]) simp
  also have "\<dots> = ?num" using num by (simp add: swap_def range_def nth_append)
  finally have last: "?final ! size' \<noteq> size'" using num by simp
  have inv: "length ?final = size' + 1" "set ?final = set ?xs0"
    using shuffle_loop_inv[OF assms(1), of size' ?xs0 size' 0 k] by (simp_all add: range_def)
  have "size' \<in> set ?final" unfolding inv(2) by (simp add: range_def)
  then obtain j where j: "j < length ?final" "?final ! j = size'"
    by (auto simp: in_set_conv_nth)
  with last inv(1) have "j < size'" by (cases "j = size'") auto
  with j(2) have "size' \<in> set (map (\<lambda>i. ?final ! i) [0..<size'])" by force
  then show ?thesis by (simp add: algorithm_A_def case_prod_beta)
qed

lemma random_unique_all_has_undefined:
  assumes "c \<noteq> []" and "valid_rng g" and "unique options = Some True" and "int (size_c c) \<le> n"
  shows "\<exists>r k'. random c (Some n) options g k = Some (Inr r, k') \<and> None \<in> set (returned r)"
proof -
  have pos: "0 < size_c c" using assms(1) by (simp add: size_c_def)
  have norm: "normalize_amount (size_c c) (Some n) = int (size_c c)"
    using normalize_amount_pos[OF pos, of n] assms(4) pos by simp
  have large: "largeAmount (int (size_c c)) (size_c c)"
    using pos by (simp add: largeAmount_def)
  let ?slots = "fst (algorithm_A g k (size_c c) (int (size_c c)))"
  let ?results = "map (\<lambda>r. js_index (values_c c) (int r)) ?slots"
  have slots: "random_slots c (Some n) options g k
                 = Some (algorithm_A g k (size_c c) (int (size_c c)))"
    using assms(3) large by (simp add: random_slots_def Let_def norm)
  have "size_c c \<in> set ?slots" by (rule algorithm_A_full_has_size[OF assms(2) pos])
  then have "js_index (values_c c) (int (size_c c)) \<in> set ?results" by force
  then have undef: "None \<in> set ?results" by (simp add: js_index_def values_c_def size_c_def)
  have len: "length ?results = size_c c"
    by (simp add: algorithm_A_def case_prod_beta)
  show ?thesis
  proof (cases "int (size_c c) \<le> 1")
    case True
    then have "length ?results = 1" using pos len by simp
    then obtain x where x: "?results = [x]" by (cases ?results) auto
    with undef have "x = None" by simp
    with x True show ?thesis
      by (simp add: random_nonempty[OF assms(1)] slots norm case_prod_beta)
  next
    case False
    with undef show ?thesis
      by (simp add: random_nonempty[OF assms(1)] slots norm case_prod_beta)
  qed
qed


lemma random_rejection_members:
  assumes "c \<noteq> []" and "valid_rng g"
    and "\<not> largeAmount (normalize_amount (size_c c) amount) (size_c c)"
    and "random c amount options g k = Some (Inr r, k')"
  shows "set (returned r) \<subseteq> Some ` set (values_c c)"
proof (cases "unique options = Some True")
  case False
  then show ?thesis by (rule random_plain_members[OF assms(1,2) _ assms(4)])
next
  case True
  have pos: "0 < size_c c" using assms(1) by (simp add: size_c_def)
  let ?a = "normalize_amount (size_c c) amount"
  note b = normalize_amount_bounds[OF pos, of amount]
  from assms(4) obtain slots where s: "random_slots c amount options g k = Some (slots, k')"
    and r: "r = (if ?a \<le> 1
                 then One (case map (\<lambda>r. js_index (values_c c) (int r)) slots of
                             [] \<Rightarrow> None | r # _ \<Rightarrow> r)
                 else Many (map (\<lambda>r. js_index (values_c c) (int r)) slots))"
    by (auto simp: random_nonempty[OF assms(1)] split: option.splits)
  let ?results = "map (\<lambda>r. js_index (values_c c) (int r)) slots"
  have loop: "unique_loop g (size_c c) ?a 0 k [] = Some (slots, k')"
    using s True assms(3) by (simp add: random_slots_def algorithm_B_def Let_def)
  have "set slots \<subseteq> {..<size_c c}"
    using unique_loop_set[OF loop assms(2) pos] by simp
  then have res: "set ?results \<subseteq> Some ` set (values_c c)"
    by (auto simp: js_index_def size_c_def values_c_def)
  have "length ?results = nat ?a" using random_slots_length[OF assms(1) s] by simp
  then have "?results \<noteq> []" using b by auto
  then have "(case ?results of [] \<Rightarrow> None | r # _ \<Rightarrow> r) \<in> set ?results"
    by (cases ?results) auto
  with res r show ?thesis by (auto split: if_splits)
qed

text \<open>
  C3. A collection with one entry, \<open>random(1, {unique: true})\<close>: the density is 100,
  the partial shuffle runs on the index sequence \<open>0, 1\<close>, its only step exchanges the
  two, and the value read at index 1 of the one-element array is \<^verbatim>\<open>undefined\<close>,
  which is not a value of the collection.
\<close>

theorem random_unique_returns_undefined:
  "random [(1::nat, ''a'')] (Some 1) \<lparr>unique = Some True\<rparr> (\<lambda>_. 0) 0 = Some (Inr (One None), 1)
   \<and> random_slots [(1::nat, ''a'')] (Some 1) \<lparr>unique = Some True\<rparr> (\<lambda>_. 0) 0 = Some ([1], 1)
   \<and> None \<notin> Some ` set (values_c [(1::nat, ''a'')])"
  by (simp add: random_def random_slots_def size_c_def normalize_amount_def largeAmount_def
        algorithm_A_def shuffle_loop.simps range_def swap_def random_below_def values_c_def
        js_index_def)

text \<open>
  C4. \<open>random\<close> takes the partial shuffle exactly when the density of the normalised
  amount exceeds the threshold of the size and \<open>unique\<close> is true, and the rejection
  sampling in every other case; the threshold table of the specification is the
  nested conditional of the source.
\<close>

theorem random_algorithm_selection:
  "random_slots c amount options g k =
     (if density (normalize_amount (size_c c) amount) (size_c c) > threshold (size_c c)
         \<and> unique options = Some True
      then Some (algorithm_A g k (size_c c) (normalize_amount (size_c c) amount))
      else algorithm_B g k (size_c c) (normalize_amount (size_c c) amount)
             (unique options = Some True))
   \<and> (largeAmount (normalize_amount (size_c c) amount) (size_c c)
        = (density (normalize_amount (size_c c) amount) (size_c c) > threshold (size_c c)))"
proof -
  have "largeAmount a s = (density a s > threshold s)" for a s
    by (simp add: largeAmount_def density_def threshold_def)
  then show ?thesis by (simp add: random_slots_def Let_def)
qed

lemma random_no_error:
  "c \<noteq> [] \<Longrightarrow> random c amount options g k \<noteq> Some (Inl e, k')"
  by (auto simp: random_nonempty split: option.splits)

lemma random_recurrent_returns:
  assumes "c \<noteq> []" and "recurrent g (size_c c)"
  shows "\<exists>r k'. random c amount options g k = Some (Inr r, k')"
proof -
  have pos: "0 < size_c c" using assms(1) by (simp add: size_c_def)
  note b = normalize_amount_bounds[OF pos, of amount]
  have "\<exists>y. unique_loop g (size_c c) (normalize_amount (size_c c) amount) 0 k [] = Some y"
    using b by (intro unique_loop_returns[OF assms(2)]) auto
  then have "\<exists>y. random_slots c amount options g k = Some y"
    by (auto simp: random_slots_def algorithm_B_def Let_def)
  then show ?thesis by (auto simp: random_nonempty[OF assms(1)])
qed

lemma random_shuffle_returns:
  assumes "c \<noteq> []"
    and "largeAmount (normalize_amount (size_c c) amount) (size_c c)"
  shows "\<exists>r k'. random c amount options g k = Some (Inr r, k')"
proof (cases "unique options = Some True")
  case True
  then have "\<exists>y. random_slots c amount options g k = Some y"
    using assms(2) by (simp add: random_slots_def Let_def)
  then show ?thesis by (auto simp: random_nonempty[OF assms(1)])
next
  case False
  then show ?thesis by (rule random_plain_returns[OF assms(1)])
qed

text \<open>
  The rejection loop is not bounded: while every number drawn is already in
  \<^verbatim>\<open>random\<close>, the iteration is repeated and the loop does not return.
\<close>

lemma unique_loop_stuck:
  assumes "i < amount" and "\<forall>k'\<ge>k. random_below g k' size' \<in> set rs"
  shows "unique_loop g size' amount i k rs = None"
proof (cases "unique_loop g size' amount i k rs")
  case None
  then show ?thesis .
next
  case (Some y)
  have "i < amount \<and> (\<forall>k'\<ge>k. random_below g k' size' \<in> set rs) \<longrightarrow> False"
  proof (rule unique_loop.raw_induct
          [where P = "\<lambda>g size' amount i k rs y.
                        i < amount \<and> (\<forall>k'\<ge>k. random_below g k' size' \<in> set rs) \<longrightarrow> False",
           OF _ Some], intro impI, elim conjE)
    fix loop :: "rng \<Rightarrow> nat \<Rightarrow> int \<Rightarrow> int \<Rightarrow> nat \<Rightarrow> nat list \<Rightarrow> (nat list \<times> nat) option"
      and g size' and amount i :: int and k rs y
    assume IH: "\<And>g size' amount i k rs y. loop g size' amount i k rs = Some y \<Longrightarrow>
                  i < amount \<and> (\<forall>k'\<ge>k. random_below g k' size' \<in> set rs) \<longrightarrow> False"
      and body: "(if i < amount
                  then if - 1 < indexOf rs (random_below g k size')
                       then loop g size' amount (i - 1 + 1) (Suc k) rs
                       else loop g size' amount (i + 1) (Suc k) (rs @ [random_below g k size'])
                  else Some (rs, k)) = Some y"
      and lt: "i < amount"
      and all: "\<forall>k'\<ge>k. random_below g k' size' \<in> set rs"
    from all have here: "random_below g k size' \<in> set rs" by simp
    from all have later: "\<forall>k'\<ge>Suc k. random_below g k' size' \<in> set rs" by simp
    from body lt here have "loop g size' amount i (Suc k) rs = Some y"
      by (simp add: indexOf_iff)
    from IH[OF this] lt later show False by simp
  qed
  with assms show ?thesis by simp
qed

text \<open>
  C5, as the code has it. \<open>random\<close> throws the error of the empty collection exactly
  when the size is 0, and then before anything is drawn from the generator (its
  position is unchanged: the check is the first statement, nothing is tried again). On
  a non-empty collection no error is thrown at all, and the call returns a result
  when \<open>unique\<close> is not set, or the partial shuffle is selected, or the generator
  keeps producing every index; the rejection loop with \<open>unique\<close> has no bound of
  its own.
\<close>

theorem random_EmptyCollectionError:
  "(random c amount options g k = Some (Inl EmptyCollectionError, k)) = (size_c c = 0)
   \<and> (size_c c \<noteq> 0 \<longrightarrow> (\<forall>e k'. random c amount options g k \<noteq> Some (Inl e, k')))
   \<and> (size_c c \<noteq> 0 \<and>
        (unique options \<noteq> Some True
          \<or> largeAmount (normalize_amount (size_c c) amount) (size_c c)
          \<or> recurrent g (size_c c))
       \<longrightarrow> (\<exists>r k'. random c amount options g k = Some (Inr r, k')))"
proof (cases "c = []")
  case True
  then show ?thesis by (simp add: random_def size_c_def)
next
  case False
  then have size: "size_c c \<noteq> 0" by (simp add: size_c_def)
  have "random c amount options g k \<noteq> Some (Inl EmptyCollectionError, k)"
    by (rule random_no_error[OF False])
  moreover have "\<forall>e k'. random c amount options g k \<noteq> Some (Inl e, k')"
    using random_no_error[OF False] by blast
  moreover have "\<exists>r k'. random c amount options g k = Some (Inr r, k')"
    if "unique options \<noteq> Some True
          \<or> largeAmount (normalize_amount (size_c c) amount) (size_c c)
          \<or> recurrent g (size_c c)"
    using that random_plain_returns[OF False] random_shuffle_returns[OF False]
      random_recurrent_returns[OF False] by blast
  ultimately show ?thesis using size by blast
qed

theorem random_EmptyCollectionError_witness:
  "random ([] :: (nat \<times> string) list) (Some 2) \<lparr>unique = Some True\<rparr> (\<lambda>_. 0) 7
     = Some (Inl EmptyCollectionError, 7)
   \<and> size_c [(1::nat, ''a''), (2, ''b'')] \<noteq> 0
   \<and> recurrent (\<lambda>n. if even n then 0 else 1 / 2) (size_c [(1::nat, ''a''), (2, ''b'')])
   \<and> (\<exists>r k'. random [(1::nat, ''a''), (2, ''b'')] (Some 1) \<lparr>unique = Some True\<rparr>
                 (\<lambda>n. if even n then 0 else 1 / 2) 0 = Some (Inr r, k'))"
proof -
  let ?g = "\<lambda>n::nat. if even n then 0 else 1 / 2 :: rat"
  let ?c = "[(1::nat, ''a''), (2, ''b'')]"
  have empty: "size_c ([] :: (nat \<times> string) list) = 0" by (simp add: size_c_def)
  have size: "size_c ?c \<noteq> 0" by (simp add: size_c_def)
  have rec: "recurrent ?g (size_c ?c)"
    unfolding recurrent_def
  proof (intro allI impI)
    fix k j :: nat
    assume "j < size_c ?c"
    then have j: "j = 0 \<or> j = 1" by (auto simp: size_c_def)
    have e: "random_below ?g (2 * k) (size_c ?c) = 0"
      by (simp add: random_below_def size_c_def)
    have o: "random_below ?g (2 * k + 1) (size_c ?c) = 1"
      by (simp add: random_below_def size_c_def)
    from j e o show "\<exists>k'\<ge>k. random_below ?g k' (size_c ?c) = j"
      by (metis le_add1 mult_2 trans_le_add1)
  qed
  from random_EmptyCollectionError
         [of "[] :: (nat \<times> string) list" "Some 2" "\<lparr>unique = Some True\<rparr>" "\<lambda>_. 0" 7]
       random_EmptyCollectionError [of ?c "Some 1" "\<lparr>unique = Some True\<rparr>" ?g 0]
       empty size rec
  show ?thesis by blast
qed

text \<open>
  A non-empty collection on which the call does not return: three entries, two unique
  values asked for (density 66, so the rejection sampling is selected), and a generator
  that keeps its promise but always produces 0. The first draw is accepted, every later
  one is rejected.
\<close>

theorem random_unique_never_returns:
  "valid_rng (\<lambda>_. 0)
   \<and> size_c [(1::nat, ''a''), (2, ''b''), (3, ''c'')] \<noteq> 0
   \<and> random [(1::nat, ''a''), (2, ''b''), (3, ''c'')] (Some 2) \<lparr>unique = Some True\<rparr> (\<lambda>_. 0) 0
       = None"
proof -
  have stuck: "unique_loop (\<lambda>_. 0) 3 2 1 1 [0] = None"
    by (rule unique_loop_stuck) (simp_all add: random_below_def)
  have "unique_loop (\<lambda>_. 0) 3 2 0 0 [] = unique_loop (\<lambda>_. 0) 3 2 1 1 [0]"
    by (subst unique_loop.simps) (simp add: random_below_def)
  with stuck have loop: "unique_loop (\<lambda>_. 0) 3 2 0 0 [] = None" by simp
  have small: "\<not> largeAmount 2 3" by (simp add: largeAmount_def)
  have norm: "normalize_amount 3 (Some 2) = 2" by (simp add: normalize_amount_def)
  have size: "size_c [(1::nat, ''a''), (2, ''b''), (3, ''c'')] = 3" by (simp add: size_c_def)
  have "random_slots [(1::nat, ''a''), (2, ''b''), (3, ''c'')] (Some 2) \<lparr>unique = Some True\<rparr>
          (\<lambda>_. 0) 0 = None"
    unfolding random_slots_def Let_def size norm using loop small
    by (simp add: algorithm_B_def)
  then show ?thesis
    by (simp add: random_nonempty valid_rng_def size_c_def)
qed

section \<open>Properties of \<open>filter\<close>\<close>

lemma map_set_fresh: "k \<notin> set (map fst m) \<Longrightarrow> map_set k v m = m @ [(k, v)]"
  by (induction m) (auto simp: map_set_def)

lemma filter_loop_map:
  "distinct (map fst es) \<Longrightarrow> set (map fst acc) \<inter> set (map fst es) = {} \<Longrightarrow>
     foldl (\<lambda>results (key, value).
              if p value key c then map_set key value results else results) acc es
       = acc @ [(key, value) \<leftarrow> es. p value key c]"
proof (induction es arbitrary: acc)
  case Nil
  then show ?case by simp
next
  case (Cons e es)
  obtain key val where e: "e = (key, val)" by (cases e)
  show ?case
  proof (cases "p val key c")
    case True
    have fresh: "key \<notin> set (map fst acc)" using Cons.prems(2) e by auto
    have "set (map fst (acc @ [(key, val)])) \<inter> set (map fst es) = {}"
      using Cons.prems e by auto
    with Cons.IH[of "acc @ [(key, val)]"] Cons.prems(1) True e fresh
    show ?thesis by (simp add: map_set_fresh)
  next
    case False
    have "set (map fst acc) \<inter> set (map fst es) = {}" using Cons.prems(2) by auto
    with Cons.IH[of acc] Cons.prems(1) False e show ?thesis by simp
  qed
qed

lemma filter_loop_array:
  "foldl (\<lambda>results (key, value).
            if p value key c then results @ [(key, value)] else results) acc es
     = acc @ [(key, value) \<leftarrow> es. p value key c]"
  by (induction es arbitrary: acc) auto

text \<open>
  C6. On a collection (its keys are distinct) and for any predicate, the three shapes
  of \<open>filter\<close> hold the same pairs: the array, the plain map and the collection list
  the entries that satisfy the predicate, in the order of the collection, so their
  sets of pairs are pairwise equal. Without options the result is the array.
\<close>

theorem filter_shapes_agree:
  assumes "distinct (keys c)"
  shows "pairs (filter_c p \<lparr>return = Some ''array''\<rparr> c)
           = pairs (filter_c p \<lparr>return = Some ''map''\<rparr> c)
       \<and> pairs (filter_c p \<lparr>return = Some ''map''\<rparr> c)
           = pairs (filter_c p \<lparr>return = Some ''collection''\<rparr> c)
       \<and> pairs (filter_c p \<lparr>return = Some ''array''\<rparr> c)
           = pairs (filter_c p \<lparr>return = Some ''collection''\<rparr> c)
       \<and> filter_c p \<lparr>return = Some ''array''\<rparr> c = Array [(k, v) \<leftarrow> entries c. p v k c]
       \<and> filter_c p \<lparr>return = Some ''map''\<rparr> c = PlainMap [(k, v) \<leftarrow> entries c. p v k c]
       \<and> filter_c p \<lparr>return = Some ''collection''\<rparr> c = Coll [(k, v) \<leftarrow> entries c. p v k c]
       \<and> filter_c p \<lparr>return = None\<rparr> c = filter_c p \<lparr>return = Some ''array''\<rparr> c"
proof -
  have d: "distinct (map fst (entries c))" using assms by (simp add: keys_def entries_def)
  have m: "foldl (\<lambda>results (key, value).
              if p value key c then map_set key value results else results) [] (entries c)
       = [(key, value) \<leftarrow> entries c. p value key c]"
    using filter_loop_map[OF d, of "[]" p c] by simp
  have A: "filter_c p \<lparr>return = Some ''array''\<rparr> c = Array [(k, v) \<leftarrow> entries c. p v k c]"
    by (simp add: filter_c_def filter_loop_array)
  have M: "filter_c p \<lparr>return = Some ''map''\<rparr> c = PlainMap [(k, v) \<leftarrow> entries c. p v k c]"
    by (simp add: filter_c_def m)
  have C: "filter_c p \<lparr>return = Some ''collection''\<rparr> c = Coll [(k, v) \<leftarrow> entries c. p v k c]"
    by (simp add: filter_c_def m Collection_new_def)
  have N: "filter_c p \<lparr>return = None\<rparr> c = filter_c p \<lparr>return = Some ''array''\<rparr> c"
    by (simp add: filter_c_def)
  show ?thesis unfolding A M C N by (simp add: pairs_def entries_def)
qed

theorem filter_shapes_agree_witness:
  "distinct (keys [(1::nat, ''a''), (2, ''b''), (3, ''c'')])
   \<and> filter_c (\<lambda>v k c. 1 < k) \<lparr>return = Some ''map''\<rparr> [(1::nat, ''a''), (2, ''b''), (3, ''c'')]
       = PlainMap [(2, ''b''), (3, ''c'')]
   \<and> pairs (filter_c (\<lambda>v k c. 1 < k) \<lparr>return = Some ''array''\<rparr>
              [(1::nat, ''a''), (2, ''b''), (3, ''c'')])
       = pairs (filter_c (\<lambda>v k c. 1 < k) \<lparr>return = Some ''collection''\<rparr>
              [(1::nat, ''a''), (2, ''b''), (3, ''c'')])"
proof -
  have d: "distinct (keys [(1::nat, ''a''), (2, ''b''), (3, ''c'')])" by (simp add: keys_def)
  from filter_shapes_agree [OF d, of "\<lambda>v k c. 1 < k"] d
  show ?thesis by (simp add: entries_def pairs_def)
qed

section \<open>Properties of the positional access\<close>

lemma slice_leading:
  "0 \<le> n \<Longrightarrow> slice xs 0 (Some (min (int (length xs)) n)) = take (min (nat n) (length xs)) xs"
  by (auto simp: slice_def Let_def min_def)

lemma slice_trailing:
  "1 \<le> n \<Longrightarrow> slice xs (- min (int (length xs)) n) None
     = drop (length xs - min (nat n) (length xs)) xs"
  by (auto simp: slice_def Let_def min_def max_def nat_diff_distrib)

text \<open>
  C8, as the code has it. For an integer \<open>n \<ge> 2\<close>, \<open>first(n)\<close> and
  \<open>firstKey(n)\<close> return the sequence of the \<open>min(n, size)\<close> leading values and keys
  in insertion order, and \<open>last(n)\<close> and \<open>lastKey(n)\<close> the sequence of the
  \<open>min(n, size)\<close> trailing ones. For \<open>n \<le> 1\<close> the guard \<^verbatim>\<open>!amount || amount <= 1\<close>
  returns one value, not a sequence: the first (the last) value or key, or
  \<^verbatim>\<open>undefined\<close> on the empty collection.
\<close>

theorem first_last_amount:
  "(2 \<le> n \<longrightarrow>
      first c (Some n) = Many (map Some (take (min (nat n) (size_c c)) (values_c c)))
    \<and> firstKey c (Some n) = Many (map Some (take (min (nat n) (size_c c)) (keys c)))
    \<and> last_c c (Some n)
        = Many (map Some (drop (size_c c - min (nat n) (size_c c)) (values_c c)))
    \<and> lastKey c (Some n)
        = Many (map Some (drop (size_c c - min (nat n) (size_c c)) (keys c))))
   \<and> (n \<le> 1 \<longrightarrow>
      first c (Some n) = One (case values_c c of [] \<Rightarrow> None | v # _ \<Rightarrow> Some v)
    \<and> firstKey c (Some n) = One (case keys c of [] \<Rightarrow> None | k # _ \<Rightarrow> Some k)
    \<and> last_c c (Some n) = One (if c = [] then None else Some (last (values_c c)))
    \<and> lastKey c (Some n) = One (if c = [] then None else Some (last (keys c))))"
proof (cases "2 \<le> n")
  case True
  then have n: "0 \<le> n" "\<not> n \<le> 1" "n \<noteq> 0" "1 \<le> n" by auto
  have lv: "length (values_c c) = size_c c" and lk: "length (keys c) = size_c c"
    by (simp_all add: values_c_def keys_def size_c_def)
  show ?thesis
    using n slice_leading[OF n(1), of "values_c c"] slice_leading[OF n(1), of "keys c"]
      slice_trailing[OF n(4), of "values_c c"] slice_trailing[OF n(4), of "keys c"]
    by (simp add: first_def firstKey_def last_c_def lastKey_def Let_def lv lk)
next
  case False
  then have n: "n \<le> 1" by simp
  have h: "js_index xs 0 = (case xs of [] \<Rightarrow> None | v # _ \<Rightarrow> Some v)" for xs :: "'x list"
    by (cases xs) (simp_all add: js_index_def)
  have l: "js_index xs (int (length xs) - 1) = (if xs = [] then None else Some (last xs))"
    for xs :: "'x list"
    by (cases xs rule: rev_cases) (simp_all add: js_index_def)
  show ?thesis using False n
    by (simp add: first_def firstKey_def last_c_def lastKey_def Let_def h l values_c_def keys_def)
qed

theorem first_last_amount_witness:
  "first [(1::nat, ''a''), (2, ''b''), (3, ''c'')] (Some 2) = Many [Some ''a'', Some ''b'']
   \<and> last_c [(1::nat, ''a''), (2, ''b''), (3, ''c'')] (Some 2) = Many [Some ''b'', Some ''c'']
   \<and> firstKey [(1::nat, ''a''), (2, ''b''), (3, ''c'')] (Some 5) = Many [Some 1, Some 2, Some 3]
   \<and> lastKey [(1::nat, ''a''), (2, ''b''), (3, ''c'')] (Some 1) = One (Some 3)"
  using first_last_amount [of 2 "[(1::nat, ''a''), (2, ''b''), (3, ''c'')]"]
    first_last_amount [of 5 "[(1::nat, ''a''), (2, ''b''), (3, ''c'')]"]
    first_last_amount [of 1 "[(1::nat, ''a''), (2, ''b''), (3, ''c'')]"]
  by (simp add: size_c_def values_c_def keys_def)

text \<open>
  The guard at work on a collection of two entries: \<open>first(1)\<close> and \<open>first(0)\<close> are
  the first value itself, not the sequence of the leading \<open>min(n, size)\<close> values, and
  \<open>last(1)\<close> is the last value itself.
\<close>

theorem first_one_not_sequence:
  "first [(1::nat, ''a''), (2, ''b'')] (Some 1) = One (Some ''a'')
   \<and> first [(1::nat, ''a''), (2, ''b'')] (Some 1)
       \<noteq> Many (map Some (take (min (nat 1) (size_c [(1::nat, ''a''), (2, ''b'')]))
                            (values_c [(1::nat, ''a''), (2, ''b'')])))
   \<and> first [(1::nat, ''a''), (2, ''b'')] (Some 0) = One (Some ''a'')
   \<and> last_c [(1::nat, ''a''), (2, ''b'')] (Some 1) = One (Some ''b'')"
  by (simp add: first_def last_c_def values_c_def js_index_def)

section \<open>Properties of \<open>equal\<close>\<close>

lemma equal_loop_strict:
  "equal_loop (\<lambda>arg1 arg2. arg1 = arg2) other es
     = (\<forall>(key, value) \<in> set es. has other key \<and> get other key = Some value)"
  by (induction es) (auto split: if_splits)

text \<open>
  C9, as the code has it. \<open>equal\<close> throws the error of the missing capability
  exactly when \<open>deep\<close> is true, no deep equality is registered, the argument is a
  collection other than this one, and the two sizes are equal: the comparison of the
  sizes and the identity check return before the capability is looked at. It throws no
  other error. When \<open>deep\<close> is false or absent it returns, and the values are compared
  by strict equality.
\<close>

theorem equal_MissingCapabilityError:
  "(equal h lodashIsEqual this collection options = Inl e) =
      (e = MissingCapabilityError \<and> deep options = Some True \<and> lodashIsEqual = None
        \<and> (\<exists>r. collection = Some r \<and> r \<noteq> this \<and> size_c (h ! this) = size_c (h ! r)))
   \<and> (deep options \<noteq> Some True \<longrightarrow>
        equal h lodashIsEqual this collection options =
          Inr (case collection of
                 None \<Rightarrow> False
               | Some r \<Rightarrow>
                   size_c (h ! this) = size_c (h ! r)
                   \<and> (this = r \<or>
                       (\<forall>(key, value) \<in> set (entries (h ! this)).
                           has (h ! r) key \<and> get (h ! r) key = Some value))))"
proof (cases collection)
  case None
  then show ?thesis by (simp add: equal_def)
next
  case (Some r)
  show ?thesis
  proof (cases "deep options = Some True")
    case True
    then show ?thesis using Some
      by (cases lodashIsEqual) (auto simp: equal_def)
  next
    case False
    then show ?thesis using Some
      by (auto simp: equal_def equal_loop_strict)
  qed
qed

theorem equal_MissingCapabilityError_witness:
  "equal [[(1::nat, ''a'')], [(1, ''a'')]] None 0 (Some 1) \<lparr>deep = Some True\<rparr>
     = Inl MissingCapabilityError
   \<and> equal [[(1::nat, ''a'')], [(1, ''a'')]] None 0 (Some 1) \<lparr>deep = None\<rparr> = Inr True
   \<and> equal [[(1::nat, ''a'')], [(1, ''b'')]] None 0 (Some 1) \<lparr>deep = Some False\<rparr> = Inr False"
  using equal_MissingCapabilityError
          [of "[[(1::nat, ''a'')], [(1, ''a'')]]" None 0 "Some 1" "\<lparr>deep = Some True\<rparr>"
              MissingCapabilityError]
        equal_MissingCapabilityError
          [of "[[(1::nat, ''a'')], [(1, ''a'')]]" None 0 "Some 1" "\<lparr>deep = None\<rparr>"]
        equal_MissingCapabilityError
          [of "[[(1::nat, ''a'')], [(1, ''b'')]]" None 0 "Some 1" "\<lparr>deep = Some False\<rparr>"]
  by (simp add: size_c_def entries_def has_def get_def)

text \<open>
  No deep equality is registered and \<open>deep\<close> is true, yet nothing is thrown: a
  collection of one entry compared with an empty one gives \<^verbatim>\<open>false\<close>, and compared
  with itself gives \<^verbatim>\<open>true\<close>.
\<close>

theorem equal_deep_sizes_differ:
  "equal [[(1::nat, ''a'')], []] None 0 (Some 1) \<lparr>deep = Some True\<rparr> = Inr False
   \<and> equal [[(1::nat, ''a'')], []] None 0 (Some 1) \<lparr>deep = Some True\<rparr>
       \<noteq> Inl MissingCapabilityError
   \<and> equal [[(1::nat, ''a'')]] None 0 (Some 0) \<lparr>deep = Some True\<rparr> = Inr True"
  by (simp add: equal_def size_c_def)

text \<open>
  C10. Called with \<^verbatim>\<open>null\<close> or \<^verbatim>\<open>undefined\<close>, \<open>equal\<close> returns
  \<^verbatim>\<open>false\<close> and throws nothing, whatever the collection, the options and the
  registered capability: the optional access gives no size to compare.
\<close>

theorem equal_absent_argument:
  "equal h lodashIsEqual this None options = Inr False"
  by (simp add: equal_def)

section \<open>Properties of \<open>concat\<close>\<close>

lemma map_of_rev_distinct: "distinct (map fst xs) \<Longrightarrow> map_of (rev xs) k = map_of xs k"
proof (induction xs)
  case Nil
  then show ?case by simp
next
  case (Cons x xs)
  obtain a b where x: "x = (a, b)" by (cases x)
  have "map_of (rev xs) a = None"
    using Cons.prems x by (simp add: map_of_eq_None_iff)
  with Cons x show ?case by (auto simp: map_add_def split: option.splits)
qed

lemma overlay_get:
  "map_of (foldl (\<lambda>m (k, v). map_set k v m) m es) = map_of m ++ map_of (rev es)"
proof (induction es arbitrary: m)
  case Nil
  then show ?case by simp
next
  case (Cons e es)
  obtain k v where e: "e = (k, v)" by (cases e)
  have "map_of (foldl (\<lambda>m (k, v). map_set k v m) m (e # es))
          = map_of (map_set k v m) ++ map_of (rev es)"
    using Cons[of "map_set k v m"] e by simp
  also have "map_of (map_set k v m) = (map_of m)(k \<mapsto> v)"
    by (simp add: map_set_def update_conv')
  also have "(map_of m)(k \<mapsto> v) ++ map_of (rev es) = map_of m ++ map_of (rev (e # es))"
    using e by (auto simp: fun_eq_iff map_add_def split: option.splits)
  finally show ?case .
qed

lemma set_all_at:
  "merged < length h \<Longrightarrow>
     fold (\<lambda>(key, value) h'. h'[merged := map_set key value (h' ! merged)]) es h
       = h[merged := foldl (\<lambda>m (k, v). map_set k v m) (h ! merged) es]"
proof (induction es arbitrary: h)
  case Nil
  then show ?case by simp
next
  case (Cons e es)
  obtain k v where e: "e = (k, v)" by (cases e)
  let ?h = "h[merged := map_set k v (h ! merged)]"
  have "merged < length ?h" using Cons.prems by simp
  from Cons.IH[OF this] Cons.prems e show ?case by simp
qed

lemma concat_loop_frame:
  "merged < length h \<Longrightarrow>
     length (concat_loop h merged cs) = length h
     \<and> (\<forall>r. r \<noteq> merged \<longrightarrow> concat_loop h merged cs ! r = h ! r)"
proof (induction cs arbitrary: h)
  case Nil
  then show ?case by simp
next
  case (Cons x cs)
  show ?case
  proof (cases x)
    case None
    with Cons show ?thesis by simp
  next
    case (Some r)
    let ?h = "h[merged := foldl (\<lambda>m (k, v). map_set k v m) (h ! merged) (entries (h ! r))]"
    have "merged < length ?h" using Cons.prems by simp
    from Cons.IH[OF this] Some Cons.prems show ?thesis
      by (simp add: set_all_at)
  qed
qed

lemma concat_loop_untouched_key:
  "merged < length h \<Longrightarrow> \<forall>r. Some r \<in> set cs \<longrightarrow> r \<noteq> merged \<and> \<not> has (h ! r) k \<Longrightarrow>
     get (concat_loop h merged cs ! merged) k = get (h ! merged) k"
proof (induction cs arbitrary: h)
  case Nil
  then show ?case by simp
next
  case (Cons x cs)
  show ?case
  proof (cases x)
    case None
    with Cons show ?thesis by simp
  next
    case (Some r)
    let ?h = "h[merged := foldl (\<lambda>m (k, v). map_set k v m) (h ! merged) (entries (h ! r))]"
    have r: "r \<noteq> merged" "\<not> has (h ! r) k" using Cons.prems(2) Some by auto
    have len: "merged < length ?h" using Cons.prems by simp
    have rest: "\<forall>r'. Some r' \<in> set cs \<longrightarrow> r' \<noteq> merged \<and> \<not> has (?h ! r') k"
      using Cons.prems(2) by auto
    have "map_of (rev (entries (h ! r))) k = None"
      using r(2) by (simp add: has_def entries_def map_of_eq_None_iff)
    then have "get (?h ! merged) k = get (h ! merged) k"
      using Cons.prems(1) by (simp add: get_def overlay_get map_add_def)
    with Cons.IH[OF len rest] Some Cons.prems(1) show ?thesis
      by (simp add: set_all_at)
  qed
qed

lemma concat_loop_last_wins:
  "merged < length h \<Longrightarrow> b \<noteq> merged \<Longrightarrow> distinct (keys (h ! b)) \<Longrightarrow> has (h ! b) k \<Longrightarrow>
   \<forall>r. Some r \<in> set pre \<longrightarrow> r \<noteq> merged \<Longrightarrow>
   \<forall>r. Some r \<in> set post \<longrightarrow> r \<noteq> merged \<and> \<not> has (h ! r) k \<Longrightarrow>
     get (concat_loop h merged (pre @ Some b # post) ! merged) k = get (h ! b) k"
proof (induction pre arbitrary: h)
  case Nil
  let ?h = "h[merged := foldl (\<lambda>m (k, v). map_set k v m) (h ! merged) (entries (h ! b))]"
  have len: "merged < length ?h" using Nil.prems by simp
  have rest: "\<forall>r. Some r \<in> set post \<longrightarrow> r \<noteq> merged \<and> \<not> has (?h ! r) k"
    using Nil.prems(6) by auto
  obtain v where v: "map_of (h ! b) k = Some v"
    using Nil.prems(4) by (cases "map_of (h ! b) k") (auto simp: has_def map_of_eq_None_iff)
  then have "map_of (rev (entries (h ! b))) k = Some v"
    using Nil.prems(3) by (simp add: map_of_rev_distinct keys_def entries_def)
  then have "get (?h ! merged) k = get (h ! b) k"
    using Nil.prems(1) v by (simp add: get_def overlay_get)
  with concat_loop_untouched_key[OF len rest] Nil.prems(1) show ?case
    by (simp add: set_all_at)
next
  case (Cons x pre)
  show ?case
  proof (cases x)
    case None
    with Cons show ?thesis by simp
  next
    case (Some r)
    let ?h = "h[merged := foldl (\<lambda>m (k, v). map_set k v m) (h ! merged) (entries (h ! r))]"
    have len: "merged < length ?h" using Cons.prems by simp
    have b: "?h ! b = h ! b" using Cons.prems(2) by simp
    have pre: "\<forall>r. Some r \<in> set pre \<longrightarrow> r \<noteq> merged" using Cons.prems(5) by auto
    have post: "\<forall>r. Some r \<in> set post \<longrightarrow> r \<noteq> merged \<and> \<not> has (?h ! r) k"
      using Cons.prems(6) by auto
    from Cons.IH[OF len Cons.prems(2) _ _ pre post] b Cons.prems(3,4)
    have "get (concat_loop ?h merged (pre @ Some b # post) ! merged) k = get (h ! b) k"
      by simp
    with Some Cons.prems(1) show ?thesis by (simp add: set_all_at)
  qed
qed

text \<open>
  C7, as the code has it. \<open>concat\<close> returns a new collection (a reference that was not
  allocated before) and leaves every collection that existed before the call as it
  was, this one and the inputs included. If \<open>b\<close> is in the sequence and has the key
  \<open>k\<close>, and no collection after \<open>b\<close> in the sequence has \<open>k\<close>, the value of the
  result at \<open>k\<close> is the value of \<open>b\<close> at \<open>k\<close>: the last collection that has the key
  wins.
\<close>

theorem concat_last_wins:
  assumes "this < length h"
    and "\<forall>r. Some r \<in> set collections \<longrightarrow> r < length h"
    and "collections = pre @ Some b # post"
    and "distinct (keys (h ! b))"
    and "has (h ! b) k"
    and "\<forall>r. Some r \<in> set post \<longrightarrow> \<not> has (h ! r) k"
  shows "get (fst (concat_c h this collections) ! snd (concat_c h this collections)) k
           = get (h ! b) k
       \<and> snd (concat_c h this collections) = length h
       \<and> length (fst (concat_c h this collections)) = Suc (length h)
       \<and> (\<forall>r < length h. fst (concat_c h this collections) ! r = h ! r)"
proof -
  let ?h1 = "h @ [Collection_new (entries (h ! this))]"
  let ?merged = "length h"
  have c: "concat_c h this collections = (concat_loop ?h1 ?merged collections, ?merged)"
    by (simp add: concat_c_def clone_def)
  have len: "?merged < length ?h1" by simp
  note frame = concat_loop_frame[OF len, of collections]
  have old: "r < length h \<Longrightarrow> ?h1 ! r = h ! r" for r by (simp add: nth_append)
  have b: "b < length h" using assms(2,3) by simp
  have "get (concat_loop ?h1 ?merged (pre @ Some b # post) ! ?merged) k = get (?h1 ! b) k"
  proof (rule concat_loop_last_wins[OF len])
    show "b \<noteq> length h" using b by simp
    show "distinct (keys (?h1 ! b))" using assms(4) old[OF b] by simp
    show "has (?h1 ! b) k" using assms(5) old[OF b] by simp
    show "\<forall>r. Some r \<in> set pre \<longrightarrow> r \<noteq> length h" using assms(2,3) by auto
    show "\<forall>r. Some r \<in> set post \<longrightarrow> r \<noteq> length h \<and> \<not> has (?h1 ! r) k"
    proof (intro allI impI)
      fix r assume r: "Some r \<in> set post"
      then have "r < length h" using assms(2,3) by auto
      with r assms(6) old show "r \<noteq> length h \<and> \<not> has (?h1 ! r) k" by auto
    qed
  qed
  then have "get (concat_loop ?h1 ?merged collections ! ?merged) k = get (h ! b) k"
    using assms(3) old[OF b] by simp
  moreover have "\<forall>r < length h. concat_loop ?h1 ?merged collections ! r = h ! r"
    using frame old by auto
  moreover have "length (concat_loop ?h1 ?merged collections) = Suc (length h)"
    using frame by simp
  ultimately show ?thesis unfolding c by simp
qed

theorem concat_last_wins_witness:
  "get (fst (concat_c [[(1::nat, ''a''), (2, ''x'')], [(3, ''b''), (1, ''q'')], [(4, ''c'')]] 0
               [Some 1, None, Some 2])
        ! snd (concat_c [[(1::nat, ''a''), (2, ''x'')], [(3, ''b''), (1, ''q'')], [(4, ''c'')]] 0
               [Some 1, None, Some 2])) 1
     = Some ''q''
   \<and> snd (concat_c [[(1::nat, ''a''), (2, ''x'')], [(3, ''b''), (1, ''q'')], [(4, ''c'')]] 0
               [Some 1, None, Some 2]) = 3"
proof -
  let ?h = "[[(1::nat, ''a''), (2, ''x'')], [(3, ''b''), (1, ''q'')], [(4, ''c'')]]"
  have 1: "0 < length ?h" by simp
  have 2: "\<forall>r. Some r \<in> set [Some 1, None, Some 2] \<longrightarrow> r < length ?h" by simp
  have 3: "[Some 1, None, Some 2] = [] @ Some 1 # [None, Some 2]" by simp
  have 4: "distinct (keys (?h ! 1))" by (simp add: keys_def)
  have 5: "has (?h ! 1) 1" by (simp add: has_def)
  have 6: "\<forall>r. Some r \<in> set [None, Some 2] \<longrightarrow> \<not> has (?h ! r) 1" by (simp add: has_def)
  have at_b: "get (?h ! 1) 1 = Some ''q''" by (simp add: get_def)
  have fresh: "length ?h = 3" by simp
  from concat_last_wins [OF 1 2 3 4 5 6] show ?thesis unfolding at_b fresh by blast
qed

text \<open>
  A later input overrides an earlier one: this collection and both inputs have the key
  1, the first input holds \<open>b\<close> there, and the result holds the \<open>c\<close> of the second.
\<close>

theorem concat_overridden_by_later:
  "Some 1 \<in> set [Some 1, Some 2]
   \<and> has ([[(1::nat, ''a'')], [(1, ''b'')], [(1, ''c'')]] ! 0) 1
   \<and> has ([[(1::nat, ''a'')], [(1, ''b'')], [(1, ''c'')]] ! 1) 1
   \<and> get (fst (concat_c [[(1::nat, ''a'')], [(1, ''b'')], [(1, ''c'')]] 0 [Some 1, Some 2])
          ! snd (concat_c [[(1::nat, ''a'')], [(1, ''b'')], [(1, ''c'')]] 0 [Some 1, Some 2])) 1
       = Some ''c''
   \<and> get ([[(1::nat, ''a'')], [(1, ''b'')], [(1, ''c'')]] ! 1) 1 = Some ''b''
   \<and> get (fst (concat_c [[(1::nat, ''a'')], [(1, ''b'')], [(1, ''c'')]] 0 [Some 1, Some 2])
          ! snd (concat_c [[(1::nat, ''a'')], [(1, ''b'')], [(1, ''c'')]] 0 [Some 1, Some 2])) 1
       \<noteq> get ([[(1::nat, ''a'')], [(1, ''b'')], [(1, ''c'')]] ! 1) 1"
  by (simp add: concat_c_def clone_def Collection_new_def entries_def map_set_def has_def get_def)

end
